theory Spec2Isabelle
  imports Main "HOL-Library.AList"
begin

section \<open>Data model of \<open>vault_checker.py\<close>\<close>

text \<open>
  The program works on the decoded JSON of a vault export. A dictionary slot that the
  code reads is one of three things: the key is missing, the key holds \<open>None\<close>
  (JSON \<open>null\<close>), or the key holds a value. The code tells the three apart
  (\<open>k in d\<close>, \<open>d[k] is None\<close>, \<open>d[k]\<close>), so the model does too.
\<close>

datatype 'a field = Absent | Null | Val 'a

datatype py_error = KeyError | TypeError | IndexError | ValueError | EOFError | NoSuchObject

text \<open>
  A URI entry, a login and an item are dictionaries. The keys the code reads are record
  fields; the remaining keys, which the code only compares with \<open>==\<close>, are one field of
  an arbitrary type (\<open>uri_rest\<close>, \<open>item_rest\<close>).
\<close>

record 'u uri_entry =
  uri :: "string field"
  uri_rest :: 'u

record 'u login_data =
  username :: "string field"
  password :: "string field"
  uris :: "'u uri_entry list field"

record ('u, 'r) item =
  item_id :: string
  name :: string
  login :: "'u login_data field"
  item_rest :: 'r

text \<open>What \<open>print\<close> and \<open>Confirm.ask\<close> show, in order.\<close>

datatype event =
    Removing_no_username string
  | Removing_no_password string
  | Removing_no_uri string
  | Found_duplicates string string
  | Has_uris string "string option list"
  | Ask_merge
  | Merged_into string string
  | Found_items nat
  | Removed_userless int
  | Removed_passwordless int
  | Removed_uriless int
  | Ending nat nat

text \<open>
  The state of a run: \<open>data["items"]\<close>, the module-level set \<open>merged_items\<close>, the
  answers the user will give to the coming \<open>Confirm.ask\<close> calls, and the output so far.
  An item object is a position of \<open>items\<close>: \<open>json.load\<close> builds a fresh dictionary for
  every element of the list, so two positions are two objects.
\<close>

record ('u, 'r) vault =
  items :: "('u, 'r) item list"
  merged_items :: "string set"
  answers :: "bool list"
  out :: "event list"

section \<open>Python's operations on the data\<close>

definition bind_err :: "py_error + 'a \<Rightarrow> ('a \<Rightarrow> py_error + 'b) \<Rightarrow> py_error + 'b" where
  "bind_err m f = (case m of Inl e \<Rightarrow> Inl e | Inr x \<Rightarrow> f x)"

text \<open>\<open>x and y\<close>, \<open>x or y\<close>: the right operand is evaluated only when it decides.\<close>

definition py_and :: "py_error + bool \<Rightarrow> py_error + bool \<Rightarrow> py_error + bool" where
  "py_and x y = bind_err x (\<lambda>b. if b then y else Inr False)"

definition py_or :: "py_error + bool \<Rightarrow> py_error + bool \<Rightarrow> py_error + bool" where
  "py_or x y = bind_err x (\<lambda>b. if b then Inr True else y)"

text \<open>\<open>k in d\<close> and \<open>d[k]\<close> on the slot of \<open>k\<close>.\<close>

definition contains :: "'a field \<Rightarrow> bool" where
  "contains f = (f \<noteq> Absent)"

definition getitem :: "'a field \<Rightarrow> py_error + 'a option" where
  "getitem f = (case f of Absent \<Rightarrow> Inl KeyError | Null \<Rightarrow> Inr None | Val v \<Rightarrow> Inr (Some v))"

text \<open>
  \<open>item["login"]\<close> used as a dictionary (subscripted, or the right side of \<open>in\<close>):
  a missing key raises KeyError, \<open>None\<close> in its place raises TypeError.
\<close>

definition item_login :: "('u, 'r) item \<Rightarrow> py_error + 'u login_data" where
  "item_login it =
     (case login it of Absent \<Rightarrow> Inl KeyError | Null \<Rightarrow> Inl TypeError | Val l \<Rightarrow> Inr l)"

text \<open>\<open>xs.remove(x)\<close>: the first element equal to \<open>x\<close> goes; ValueError when there is none.\<close>

definition list_remove :: "'a \<Rightarrow> 'a list \<Rightarrow> py_error + 'a list" where
  "list_remove x xs = (if x \<in> set xs then Inr (remove1 x xs) else Inl ValueError)"

definition emit :: "event \<Rightarrow> ('u, 'r) vault \<Rightarrow> ('u, 'r) vault" where
  "emit e s = s\<lparr>out := out s @ [e]\<rparr>"

section \<open>The userless and passwordless filters\<close>

text \<open>
  \<open>"login" in item and (item["login"]["username"] is None or "username" not in item["login"])\<close>
\<close>

definition userless_cond :: "('u, 'r) item \<Rightarrow> py_error + bool" where
  "userless_cond it =
     py_and (Inr (contains (login it)))
       (py_or
          (bind_err (item_login it) (\<lambda>l. bind_err (getitem (username l)) (\<lambda>v. Inr (v = None))))
          (bind_err (item_login it) (\<lambda>l. Inr (\<not> contains (username l)))))"

text \<open>
  \<open>"login" in item and item["login"]["password"] is None or "password" not in item["login"]\<close>:
  \<open>and\<close> binds tighter than \<open>or\<close>.
\<close>

definition passwordless_cond :: "('u, 'r) item \<Rightarrow> py_error + bool" where
  "passwordless_cond it =
     py_or
       (py_and (Inr (contains (login it)))
          (bind_err (item_login it) (\<lambda>l. bind_err (getitem (password l)) (\<lambda>v. Inr (v = None)))))
       (bind_err (item_login it) (\<lambda>l. Inr (\<not> contains (password l))))"

text \<open>
  \<open>for item in data["items"]: if cond: print(...); data["items"].remove(item)\<close>.
  The list iterator holds a position \<open>i\<close>: it stops when \<open>i\<close> reaches the current
  length, else yields the element at \<open>i\<close> and moves on by one, whatever the body did to
  the list.
\<close>

function remove_loop ::
  "(('u, 'r) item \<Rightarrow> py_error + bool) \<Rightarrow> (string \<Rightarrow> event) \<Rightarrow> nat \<Rightarrow> ('u, 'r) vault
     \<Rightarrow> py_error + ('u, 'r) vault" where
  "remove_loop cond ev i s =
     (if i < length (items s) then
        (case cond (items s ! i) of
           Inl e \<Rightarrow> Inl e
         | Inr c \<Rightarrow>
             if c then
               (case list_remove (items s ! i) (items s) of
                  Inl e \<Rightarrow> Inl e
                | Inr xs \<Rightarrow> remove_loop cond ev (Suc i) ((emit (ev (name (items s ! i))) s)\<lparr>items := xs\<rparr>))
             else remove_loop cond ev (Suc i) s)
      else Inr s)"
  by pat_completeness auto
termination
  by (relation "measure (\<lambda>(cond, ev, i, s). length (items s) - i)")
     (auto simp: list_remove_def emit_def length_remove1 split: if_splits)

definition remove_userless_item :: "('u, 'r) vault \<Rightarrow> py_error + ('u, 'r) vault" where
  "remove_userless_item s = remove_loop userless_cond Removing_no_username 0 s"

definition remove_passwordless_item :: "('u, 'r) vault \<Rightarrow> py_error + ('u, 'r) vault" where
  "remove_passwordless_item s = remove_loop passwordless_cond Removing_no_password 0 s"

section \<open>The uriless filter\<close>

text \<open>Truth value of \<open>item["login"]["uris"]\<close> and of \<open>uri.get("uri")\<close>.\<close>

definition truthy :: "'a list option \<Rightarrow> bool" where
  "truthy v = (case v of None \<Rightarrow> False | Some xs \<Rightarrow> xs \<noteq> [])"

definition uri_get :: "'u uri_entry \<Rightarrow> string option" where
  "uri_get u = (case uri u of Absent \<Rightarrow> None | Null \<Rightarrow> None | Val v \<Rightarrow> Some v)"

text \<open>\<open>"login" in item and "uris" in item["login"] and item["login"]["uris"]\<close>\<close>

definition uriless_cond :: "('u, 'r) item \<Rightarrow> py_error + bool" where
  "uriless_cond it =
     py_and (Inr (contains (login it)))
       (py_and
          (bind_err (item_login it) (\<lambda>l. Inr (contains (uris l))))
          (bind_err (item_login it) (\<lambda>l. bind_err (getitem (uris l)) (\<lambda>v. Inr (truthy v)))))"

text \<open>\<open>[uri for uri in item["login"]["uris"] if uri.get("uri")]\<close>\<close>

definition valid_uris :: "('u, 'r) item \<Rightarrow> 'u uri_entry list" where
  "valid_uris it =
     (case login it of
        Val l \<Rightarrow> (case uris l of Val us \<Rightarrow> filter (\<lambda>u. truthy (uri_get u)) us | _ \<Rightarrow> [])
      | _ \<Rightarrow> [])"

text \<open>\<open>item["login"]["uris"] = uris\<close>\<close>

definition set_uris :: "'u uri_entry list \<Rightarrow> ('u, 'r) item \<Rightarrow> ('u, 'r) item" where
  "set_uris us it =
     (case login it of Val l \<Rightarrow> it\<lparr>login := Val (l\<lparr>uris := Val us\<rparr>)\<rparr> | _ \<Rightarrow> it)"

text \<open>
  The scan (first loop): it rewrites the URI list of the items it visits and collects
  \<open>items_to_remove\<close>. Its result is the item list after the scan and the collected
  objects, each with the value it has after the scan (an object is written only when it
  is visited).
\<close>

fun uriless_scan ::
  "('u, 'r) item list \<Rightarrow> py_error + (('u, 'r) item list \<times> ('u, 'r) item list)" where
  "uriless_scan [] = Inr ([], [])"
| "uriless_scan (it # rest) =
     bind_err (uriless_cond it) (\<lambda>c.
       if c then
         (let us = valid_uris it; it' = set_uris us it in
          bind_err (uriless_scan rest) (\<lambda>(its, to_remove).
            Inr (it' # its, if us = [] then it' # to_remove else to_remove)))
       else
         bind_err (uriless_scan rest) (\<lambda>(its, to_remove). Inr (it # its, it # to_remove)))"

text \<open>The second loop: \<open>for item in items_to_remove: print(...); data["items"].remove(item)\<close>.\<close>

fun uriless_remove ::
  "('u, 'r) item list \<Rightarrow> ('u, 'r) vault \<Rightarrow> py_error + ('u, 'r) vault" where
  "uriless_remove [] s = Inr s"
| "uriless_remove (it # rest) s =
     bind_err (list_remove it (items (emit (Removing_no_uri (name it)) s))) (\<lambda>xs.
       uriless_remove rest ((emit (Removing_no_uri (name it)) s)\<lparr>items := xs\<rparr>))"

definition remove_uriless_item :: "('u, 'r) vault \<Rightarrow> py_error + ('u, 'r) vault" where
  "remove_uriless_item s =
     bind_err (uriless_scan (items s)) (\<lambda>(its, to_remove).
       uriless_remove to_remove (s\<lparr>items := its\<rparr>))"

section \<open>The duplicate finder\<close>

text \<open>\<open>item["login"]["uris"][0]["uri"]\<close>\<close>

definition first_uri :: "('u, 'r) item \<Rightarrow> py_error + string option" where
  "first_uri it =
     bind_err (item_login it) (\<lambda>l.
       bind_err (getitem (uris l)) (\<lambda>v.
         case v of
           None \<Rightarrow> Inl TypeError
         | Some [] \<Rightarrow> Inl IndexError
         | Some (u # _) \<Rightarrow> getitem (uri u)))"

text \<open>\<open>item["login"]["username"]\<close> and \<open>item["login"]["password"]\<close>\<close>

definition item_username :: "('u, 'r) item \<Rightarrow> py_error + string option" where
  "item_username it = bind_err (item_login it) (\<lambda>l. getitem (username l))"

definition item_password :: "('u, 'r) item \<Rightarrow> py_error + string option" where
  "item_password it = bind_err (item_login it) (\<lambda>l. getitem (password l))"

text \<open>\<open>x == y\<close>: the left side is evaluated first.\<close>

definition py_eq :: "py_error + 'a \<Rightarrow> py_error + 'a \<Rightarrow> py_error + bool" where
  "py_eq x y = bind_err x (\<lambda>a. bind_err y (\<lambda>b. Inr (a = b)))"

text \<open>
  The condition of the comprehension. \<open>item != other_item\<close> compares two dictionaries
  by value.
\<close>

definition dup_cond :: "('u, 'r) item \<Rightarrow> ('u, 'r) item \<Rightarrow> py_error + bool" where
  "dup_cond it other =
     py_and (Inr (it \<noteq> other))
       (py_and (py_eq (first_uri it) (first_uri other))
          (py_and (py_eq (item_username it) (item_username other))
                  (py_eq (item_password it) (item_password other))))"

fun filter_err :: "('a \<Rightarrow> py_error + bool) \<Rightarrow> 'a list \<Rightarrow> py_error + 'a list" where
  "filter_err p [] = Inr []"
| "filter_err p (x # xs) =
     bind_err (p x) (\<lambda>c. bind_err (filter_err p xs) (\<lambda>ys. Inr (if c then x # ys else ys)))"

text \<open>
  The comprehension runs over the pairs of positions in the order of its two \<open>for\<close>
  clauses and keeps the pairs of objects that pass the condition. The function returns
  the pairs together with the state it leaves.
\<close>

definition find_items_with_duplicates ::
  "('u, 'r) vault \<Rightarrow> py_error + ((nat \<times> nat) list \<times> ('u, 'r) vault)" where
  "find_items_with_duplicates s =
     bind_err
       (filter_err (\<lambda>(i, j). dup_cond (items s ! i) (items s ! j))
          (List.product [0..<length (items s)] [0..<length (items s)]))
       (\<lambda>ps. Inr (ps, s))"

section \<open>The merge resolver\<close>

text \<open>\<open>[uri["uri"] for uri in item["login"]["uris"]]\<close>, and the list it runs over.\<close>

fun map_err :: "('a \<Rightarrow> py_error + 'b) \<Rightarrow> 'a list \<Rightarrow> py_error + 'b list" where
  "map_err f [] = Inr []"
| "map_err f (x # xs) = bind_err (f x) (\<lambda>y. bind_err (map_err f xs) (\<lambda>ys. Inr (y # ys)))"

definition item_uris :: "('u, 'r) item \<Rightarrow> py_error + 'u uri_entry list" where
  "item_uris it =
     bind_err (item_login it) (\<lambda>l.
       bind_err (getitem (uris l)) (\<lambda>v.
         case v of None \<Rightarrow> Inl TypeError | Some us \<Rightarrow> Inr us))"

definition uri_strings :: "('u, 'r) item \<Rightarrow> py_error + string option list" where
  "uri_strings it = bind_err (item_uris it) (map_err (\<lambda>u. getitem (uri u)))"

text \<open>
  \<open>list({uri["uri"]: uri for uri in uris}.values())\<close>: a dictionary keeps its keys in the
  order of their first insertion, and storing under a key that is there replaces the
  value where it stands.
\<close>

fun dict_by_uri ::
  "'u uri_entry list \<Rightarrow> (string option \<times> 'u uri_entry) list
     \<Rightarrow> py_error + (string option \<times> 'u uri_entry) list" where
  "dict_by_uri [] d = Inr d"
| "dict_by_uri (u # us) d =
     bind_err (getitem (uri u)) (\<lambda>k. dict_by_uri us (AList.update k u d))"

definition dedup_uris :: "'u uri_entry list \<Rightarrow> py_error + 'u uri_entry list" where
  "dedup_uris us = bind_err (dict_by_uri us []) (\<lambda>d. Inr (map snd d))"

text \<open>\<open>Confirm.ask(...)\<close>: the next answer of the user; EOFError when the input has ended.\<close>

definition confirm_ask :: "('u, 'r) vault \<Rightarrow> py_error + (bool \<times> ('u, 'r) vault)" where
  "confirm_ask s =
     (case answers s of
        [] \<Rightarrow> Inl EOFError
      | ans # rest \<Rightarrow> Inr (ans, (emit Ask_merge s)\<lparr>answers := rest\<rparr>))"

text \<open>
  \<open>item_a\<close> and \<open>item_b\<close> are objects of the document, given by their positions
  \<open>a\<close> and \<open>b\<close>. A position outside the list is no object (NoSuchObject, which no run
  of the program produces).
\<close>

definition merge_uris_of_items ::
  "nat \<Rightarrow> nat \<Rightarrow> ('u, 'r) vault \<Rightarrow> py_error + ('u, 'r) vault" where
  "merge_uris_of_items a b s =
     (if a < length (items s) \<and> b < length (items s) then
        (let item_a = items s ! a; item_b = items s ! b in
         if item_id item_a \<notin> merged_items s \<and> item_id item_b \<notin> merged_items s then
           (let s1 = emit (Found_duplicates (name item_a) (name item_b)) s in
            bind_err (uri_strings item_a) (\<lambda>uris_a.
            bind_err (uri_strings item_b) (\<lambda>uris_b.
              (let s2 = emit (Has_uris (name item_a) uris_a) s1;
                   s3 = emit (Has_uris (name item_b) uris_b) s2 in
               bind_err (confirm_ask s3) (\<lambda>(merge_answer, s4).
                 if merge_answer then
                   bind_err (item_uris item_a) (\<lambda>ua.
                   bind_err (item_uris item_b) (\<lambda>ub.
                   bind_err (dedup_uris (ua @ ub)) (\<lambda>us.
                     Inr (emit (Merged_into (name item_b) (name item_a))
                            (s4\<lparr>items := (items s4)[a := set_uris us item_a],
                                merged_items := insert (item_id item_b) (merged_items s4)\<rparr>)))))
                 else Inr s4)))))
         else Inr s)
      else Inl NoSuchObject)"

section \<open>The driver\<close>

text \<open>\<open>for duplicate in items_with_duplicates: merge_uris_of_items(*duplicate)\<close>\<close>

fun merge_all :: "(nat \<times> nat) list \<Rightarrow> ('u, 'r) vault \<Rightarrow> py_error + ('u, 'r) vault" where
  "merge_all [] s = Inr s"
| "merge_all ((a, b) # ps) s = bind_err (merge_uris_of_items a b s) (merge_all ps)"

text \<open>The three filter calls of the driver, in its order.\<close>

definition filter_stage :: "('u, 'r) vault \<Rightarrow> py_error + ('u, 'r) vault" where
  "filter_stage s =
     bind_err (remove_userless_item s) (\<lambda>s1.
     bind_err (remove_passwordless_item s1) (\<lambda>s2.
       remove_uriless_item s2))"

text \<open>The body of \<open>if __name__ == "__main__"\<close>, from the loaded document on.\<close>

definition main :: "('u, 'r) vault \<Rightarrow> py_error + ('u, 'r) vault" where
  "main s0 =
     (let start_item_count = length (items s0);
          s = emit (Found_items start_item_count) s0 in
      bind_err (remove_userless_item s) (\<lambda>s.
      (let s = emit (Removed_userless (int start_item_count - int (length (items s)))) s;
           cur_count = length (items s) in
       bind_err (remove_passwordless_item s) (\<lambda>s.
       (let s = emit (Removed_passwordless (int cur_count - int (length (items s)))) s;
            cur_count = length (items s) in
        bind_err (remove_uriless_item s) (\<lambda>s.
        (let s = emit (Removed_uriless (int cur_count - int (length (items s)))) s in
         bind_err (find_items_with_duplicates s) (\<lambda>(items_with_duplicates, s).
         bind_err (merge_all items_with_duplicates s) (\<lambda>s.
           Inr (emit (Ending (length (items s)) start_item_count) s))))))))))"

section \<open>Predicates and documents used in the statements\<close>

text \<open>An item as the URI filter leaves it: a login whose URI list is not empty and has a
  non-empty \<open>uri\<close> string in every entry.\<close>

definition has_valid_uris :: "('u, 'r) item \<Rightarrow> bool" where
  "has_valid_uris it =
     (case login it of
        Val l \<Rightarrow>
          (case uris l of
             Val us \<Rightarrow> us \<noteq> [] \<and> list_all (\<lambda>u. truthy (uri_get u)) us
           | _ \<Rightarrow> False)
      | _ \<Rightarrow> False)"

text \<open>An item on which the finder's condition reads no missing key: a login with the keys
  \<open>username\<close> and \<open>password\<close> and a URI list whose first entry has the key \<open>uri\<close>.\<close>

definition comparable :: "('u, 'r) item \<Rightarrow> bool" where
  "comparable it =
     (case login it of
        Val l \<Rightarrow>
          contains (username l) \<and> contains (password l) \<and>
          (case uris l of Val (u # _) \<Rightarrow> contains (uri u) | _ \<Rightarrow> False)
      | _ \<Rightarrow> False)"

text \<open>An item whose URI list the merge resolver can read: a login with a URI list in which
  every entry has the key \<open>uri\<close>.\<close>

definition mergeable :: "('u, 'r) item \<Rightarrow> bool" where
  "mergeable it =
     (case login it of
        Val l \<Rightarrow> (case uris l of Val us \<Rightarrow> list_all (\<lambda>u. contains (uri u)) us | _ \<Rightarrow> False)
      | _ \<Rightarrow> False)"

text \<open>The last entry of a list that has a given \<open>uri\<close> slot.\<close>

definition last_with_uri :: "string field \<Rightarrow> 'u uri_entry list \<Rightarrow> 'u uri_entry option" where
  "last_with_uri k us = List.find (\<lambda>u. uri u = k) (rev us)"

text \<open>Concrete documents. \<open>uri_rest\<close> stands for the \<open>match\<close> attribute of an entry.\<close>

definition entry :: "string \<Rightarrow> nat \<Rightarrow> nat uri_entry" where
  "entry u m = \<lparr>uri = Val u, uri_rest = m\<rparr>"

definition login_item ::
  "string \<Rightarrow> string \<Rightarrow> string field \<Rightarrow> string field \<Rightarrow> nat uri_entry list field
     \<Rightarrow> (nat, unit) item" where
  "login_item i n usr pw us =
     \<lparr>item_id = i, name = n, login = Val \<lparr>username = usr, password = pw, uris = us\<rparr>,
      item_rest = ()\<rparr>"

definition note_item :: "string \<Rightarrow> string \<Rightarrow> (nat, unit) item" where
  "note_item i n = \<lparr>item_id = i, name = n, login = Absent, item_rest = ()\<rparr>"

text \<open>The state right after \<open>json.load\<close>: nothing merged, nothing printed.\<close>

definition loaded :: "(nat, unit) item list \<Rightarrow> bool list \<Rightarrow> (nat, unit) vault" where
  "loaded its ans = \<lparr>items = its, merged_items = {}, answers = ans, out = []\<rparr>"

definition uri_doc :: "(nat, unit) vault" where
  "uri_doc =
     loaded
       [note_item ''1'' ''note'',
        login_item ''2'' ''a'' (Val ''u'') (Val ''p'')
          (Val [entry '''' 0, \<lparr>uri = Null, uri_rest = 0\<rparr>, entry ''https://x.com'' 0]),
        login_item ''3'' ''b'' (Val ''u'') (Val ''p'') (Val [])]
       []"

definition uri_doc_filtered :: "(nat, unit) vault" where
  "uri_doc_filtered =
     \<lparr>items = [login_item ''2'' ''a'' (Val ''u'') (Val ''p'') (Val [entry ''https://x.com'' 0])],
      merged_items = {}, answers = [],
      out = [Removing_no_uri ''note'', Removing_no_uri ''b'']\<rparr>"

definition doc_no_login :: "(nat, unit) vault" where
  "doc_no_login = loaded [note_item ''1'' ''note''] []"

definition doc_no_password_key :: "(nat, unit) vault" where
  "doc_no_password_key =
     loaded [login_item ''1'' ''a'' (Val ''u'') Absent (Val [entry ''https://x.com'' 0])] []"

definition doc_no_username_key :: "(nat, unit) vault" where
  "doc_no_username_key =
     loaded [login_item ''1'' ''a'' Absent (Val ''p'') (Val [entry ''https://x.com'' 0])] []"

definition doc_two_userless :: "(nat, unit) vault" where
  "doc_two_userless =
     loaded
       [login_item ''1'' ''a'' Null (Val ''p'') (Val [entry ''https://x.com'' 0]),
        login_item ''2'' ''b'' Null (Val ''q'') (Val [entry ''https://y.com'' 0])]
       []"

definition twin :: "(nat, unit) item" where
  "twin = login_item ''1'' ''a'' (Val ''u'') (Val ''p'') (Val [entry ''https://x.com'' 0])"

definition doc_twins :: "(nat, unit) vault" where
  "doc_twins = loaded [twin, twin] []"

definition dup_items :: "(nat, unit) item list" where
  "dup_items =
     [login_item ''1'' ''a'' (Val ''u'') (Val ''p'') (Val [entry ''https://x.com'' 0]),
      login_item ''2'' ''b'' (Val ''u'') (Val ''p'')
        (Val [entry ''https://x.com'' 1, entry ''https://y.com'' 0])]"

definition doc_dups_yes :: "(nat, unit) vault" where
  "doc_dups_yes = loaded dup_items [True]"

definition doc_dups_no :: "(nat, unit) vault" where
  "doc_dups_no = loaded dup_items [False]"

definition doc_dups_merged :: "(nat, unit) vault" where
  "doc_dups_merged = (loaded dup_items [True])\<lparr>merged_items := {''2''}\<rparr>"

text \<open>The dictionary that the comprehension of the merge builds when every entry has the
  key \<open>uri\<close>, as a fold.\<close>

definition build ::
  "'u uri_entry list \<Rightarrow> (string option \<times> 'u uri_entry) list
     \<Rightarrow> (string option \<times> 'u uri_entry) list" where
  "build us d = fold (\<lambda>u. AList.update (uri_get u) u) us d"

text \<open>The condition of the finder on items that are \<open>comparable\<close>.\<close>

definition reported :: "('u, 'r) item list \<Rightarrow> nat \<times> nat \<Rightarrow> bool" where
  "reported xs =
     (\<lambda>(i, j). xs ! i \<noteq> xs ! j \<and> first_uri (xs ! i) = first_uri (xs ! j) \<and>
        item_username (xs ! i) = item_username (xs ! j) \<and>
        item_password (xs ! i) = item_password (xs ! j))"

section \<open>Basic facts\<close>

lemma bind_err_simps [simp]:
  "bind_err (Inl e) f = Inl e" "bind_err (Inr x) f = f x"
  by (simp_all add: bind_err_def)

lemma bind_err_Inr_iff: "bind_err m f = Inr y \<longleftrightarrow> (\<exists>x. m = Inr x \<and> f x = Inr y)"
  by (cases m) simp_all

lemma userless_cond_cases:
  "userless_cond it =
     (case login it of
        Absent \<Rightarrow> Inr False
      | Null \<Rightarrow> Inl TypeError
      | Val l \<Rightarrow>
          (case username l of Absent \<Rightarrow> Inl KeyError | Null \<Rightarrow> Inr True | Val v \<Rightarrow> Inr False))"
  by (simp add: userless_cond_def py_and_def py_or_def contains_def item_login_def
      getitem_def split: field.splits)

lemma passwordless_cond_cases:
  "passwordless_cond it =
     (case login it of
        Absent \<Rightarrow> Inl KeyError
      | Null \<Rightarrow> Inl TypeError
      | Val l \<Rightarrow>
          (case password l of Absent \<Rightarrow> Inl KeyError | Null \<Rightarrow> Inr True | Val v \<Rightarrow> Inr False))"
  by (simp add: passwordless_cond_def py_and_def py_or_def contains_def item_login_def
      getitem_def split: field.splits)

lemma uriless_cond_cases:
  "uriless_cond it =
     (case login it of
        Absent \<Rightarrow> Inr False
      | Null \<Rightarrow> Inl TypeError
      | Val l \<Rightarrow> (case uris l of Val us \<Rightarrow> Inr (us \<noteq> []) | _ \<Rightarrow> Inr False))"
  by (simp add: uriless_cond_def py_and_def contains_def item_login_def
      getitem_def truthy_def split: field.splits)

section \<open>The URI filter leaves only items with valid URIs\<close>

lemma uriless_cond_False: "uriless_cond it = Inr False \<Longrightarrow> \<not> has_valid_uris it"
  by (auto simp: uriless_cond_cases has_valid_uris_def split: field.splits)

lemma uriless_cond_True:
  "uriless_cond it = Inr True \<Longrightarrow>
     has_valid_uris (set_uris (valid_uris it) it) \<longleftrightarrow> valid_uris it \<noteq> []"
  by (auto simp: uriless_cond_cases has_valid_uris_def set_uris_def valid_uris_def list_all_iff
      split: field.splits)

lemma uriless_scan_marks:
  "uriless_scan xs = Inr (ys, rm) \<Longrightarrow> rm = filter (\<lambda>y. \<not> has_valid_uris y) ys"
proof (induction xs arbitrary: ys rm)
  case Nil
  then show ?case by simp
next
  case (Cons it rest)
  from Cons.prems obtain c where c: "uriless_cond it = Inr c"
    by (auto simp: bind_err_Inr_iff)
  show ?case
  proof (cases c)
    case True
    with Cons.prems c obtain its rm' where
      r: "uriless_scan rest = Inr (its, rm')" and
      ys: "ys = set_uris (valid_uris it) it # its" and
      rm: "rm = (if valid_uris it = [] then set_uris (valid_uris it) it # rm' else rm')"
      by (auto simp: bind_err_Inr_iff Let_def)
    from Cons.IH [OF r] uriless_cond_True [of it] c True ys rm show ?thesis
      by auto
  next
    case False
    with Cons.prems c obtain its rm' where
      r: "uriless_scan rest = Inr (its, rm')" and ys: "ys = it # its" and rm: "rm = it # rm'"
      by (auto simp: bind_err_Inr_iff)
    from Cons.IH [OF r] uriless_cond_False [of it] c False ys rm show ?thesis
      by auto
  qed
qed

lemma uriless_scan_total:
  "\<forall>it\<in>set xs. login it \<noteq> Null \<Longrightarrow> \<exists>r. uriless_scan xs = Inr r"
proof (induction xs)
  case Nil
  then show ?case by simp
next
  case (Cons it rest)
  then obtain r where r: "uriless_scan rest = Inr r" by auto
  from Cons.prems have "\<exists>c. uriless_cond it = Inr c"
    by (cases "login it") (auto simp: uriless_cond_cases split: field.splits)
  with r show ?case
    by (cases r) (auto simp: Let_def)
qed

lemma uriless_remove_filter:
  "\<forall>x\<in>set pre. P x \<Longrightarrow> items s = pre @ ys \<Longrightarrow>
     \<exists>s'. uriless_remove (filter (\<lambda>y. \<not> P y) ys) s = Inr s' \<and> items s' = pre @ filter P ys"
proof (induction ys arbitrary: pre s)
  case Nil
  then show ?case by simp
next
  case (Cons y ys)
  show ?case
  proof (cases "P y")
    case True
    with Cons.prems have "\<forall>x\<in>set (pre @ [y]). P x" "items s = (pre @ [y]) @ ys"
      by auto
    from Cons.IH [OF this] True show ?thesis by simp
  next
    case False
    with Cons.prems have notin: "y \<notin> set pre" by auto
    let ?s = "(emit (Removing_no_uri (name y)) s)\<lparr>items := pre @ ys\<rparr>"
    have "items ?s = pre @ ys" by simp
    from Cons.IH [OF Cons.prems(1) this] obtain s' where
      "uriless_remove (filter (\<lambda>y. \<not> P y) ys) ?s = Inr s'" "items s' = pre @ filter P ys"
      by blast
    with False notin Cons.prems(2) show ?thesis
      by (simp add: list_remove_def emit_def remove1_append)
  qed
qed

lemma remove_uriless_item_result:
  assumes "remove_uriless_item s = Inr s'"
  shows "\<exists>ys rm. uriless_scan (items s) = Inr (ys, rm) \<and> items s' = filter has_valid_uris ys"
proof -
  from assms obtain ys rm where
    scan: "uriless_scan (items s) = Inr (ys, rm)" and
    rem: "uriless_remove rm (s\<lparr>items := ys\<rparr>) = Inr s'"
    by (auto simp: remove_uriless_item_def bind_err_Inr_iff)
  have rm: "rm = filter (\<lambda>y. \<not> has_valid_uris y) ys"
    by (rule uriless_scan_marks [OF scan])
  have "\<exists>s''. uriless_remove (filter (\<lambda>y. \<not> has_valid_uris y) ys) (s\<lparr>items := ys\<rparr>) = Inr s'' \<and>
          items s'' = [] @ filter has_valid_uris ys"
    by (rule uriless_remove_filter) simp_all
  with rem rm scan show ?thesis by auto
qed

lemma remove_uriless_item_total:
  assumes "\<forall>it\<in>set (items s). login it \<noteq> Null"
  shows "\<exists>s'. remove_uriless_item s = Inr s'"
proof -
  from uriless_scan_total [OF assms] obtain ys rm where
    scan: "uriless_scan (items s) = Inr (ys, rm)" by (metis surj_pair)
  have rm: "rm = filter (\<lambda>y. \<not> has_valid_uris y) ys"
    by (rule uriless_scan_marks [OF scan])
  have "\<exists>s''. uriless_remove (filter (\<lambda>y. \<not> has_valid_uris y) ys) (s\<lparr>items := ys\<rparr>) = Inr s'' \<and>
          items s'' = [] @ filter has_valid_uris ys"
    by (rule uriless_remove_filter) simp_all
  with scan rm show ?thesis
    by (auto simp: remove_uriless_item_def)
qed

lemma truthy_uri_get: "truthy (uri_get u) \<longleftrightarrow> (\<exists>str. uri u = Val str \<and> str \<noteq> [])"
  by (cases "uri u") (simp_all add: truthy_def uri_get_def)

lemma has_valid_urisD:
  "has_valid_uris it \<Longrightarrow>
     \<exists>l us. login it = Val l \<and> uris l = Val us \<and> us \<noteq> [] \<and>
       (\<forall>u\<in>set us. \<exists>str. uri u = Val str \<and> str \<noteq> [])"
  by (auto simp: has_valid_uris_def list_all_iff truthy_uri_get split: field.splits)

text \<open>
  C9. Every item that is in the document after the URI filter has a login with a
  non-empty URI list, and every entry of that list has a non-empty \<open>uri\<close> string.
  The filter returns on every document in which no item has \<open>None\<close> for its login.
\<close>

theorem uriless_survivors_have_valid_uris:
  "(\<forall>s'. remove_uriless_item s = Inr s' \<longrightarrow>
      (\<forall>it\<in>set (items s').
         \<exists>l us. login it = Val l \<and> uris l = Val us \<and> us \<noteq> [] \<and>
           (\<forall>u\<in>set us. \<exists>str. uri u = Val str \<and> str \<noteq> []))) \<and>
   ((\<forall>it\<in>set (items s). login it \<noteq> Null) \<longrightarrow> (\<exists>s'. remove_uriless_item s = Inr s'))"
proof (intro conjI allI impI ballI)
  fix s' it
  assume r: "remove_uriless_item s = Inr s'" and it: "it \<in> set (items s')"
  from remove_uriless_item_result [OF r] it have "has_valid_uris it" by auto
  then show "\<exists>l us. login it = Val l \<and> uris l = Val us \<and> us \<noteq> [] \<and>
           (\<forall>u\<in>set us. \<exists>str. uri u = Val str \<and> str \<noteq> [])"
    by (rule has_valid_urisD)
next
  assume "\<forall>it\<in>set (items s). login it \<noteq> Null"
  then show "\<exists>s'. remove_uriless_item s = Inr s'"
    by (rule remove_uriless_item_total)
qed

lemmas example_defs = loaded_def login_item_def note_item_def entry_def

theorem uriless_survivors_have_valid_uris_witness:
  "list_all (\<lambda>it. login it \<noteq> Null) (items uri_doc) \<and>
   remove_uriless_item uri_doc = Inr uri_doc_filtered \<and>
   list_all
     (\<lambda>it. \<exists>l us. login it = Val l \<and> uris l = Val us \<and> us \<noteq> [] \<and>
        list_all (\<lambda>u. \<exists>str. uri u = Val str \<and> str \<noteq> []) us)
     (items uri_doc_filtered)"
proof -
  have run: "remove_uriless_item uri_doc = Inr uri_doc_filtered"
    by (simp add: remove_uriless_item_def uri_doc_def uri_doc_filtered_def example_defs
        uriless_cond_cases valid_uris_def set_uris_def truthy_def uri_get_def list_remove_def
        emit_def)
  have nn: "list_all (\<lambda>it. login it \<noteq> Null) (items uri_doc)"
    by (simp add: uri_doc_def example_defs)
  from uriless_survivors_have_valid_uris [of uri_doc] run nn show ?thesis
    unfolding list_all_iff by blast
qed

section \<open>The userless and passwordless filters on missing keys and neighbours\<close>

text \<open>
  C1. The passwordless filter is to leave an item without a \<open>login\<close> key in place and
  raise nothing, and to remove an item whose login has no \<open>password\<close> key. On the
  document whose one item has no \<open>login\<close> key the filter raises KeyError: the left
  operand of \<open>or\<close> is false and the right one subscripts \<open>item["login"]\<close>. On the
  document whose one item has a login without the \<open>password\<close> key it raises KeyError
  as well.
\<close>

theorem passwordless_raises_without_login:
  "remove_passwordless_item doc_no_login = Inl KeyError \<and>
   remove_passwordless_item doc_no_password_key = Inl KeyError"
  by (simp add: remove_passwordless_item_def doc_no_login_def doc_no_password_key_def
      example_defs passwordless_cond_cases)

text \<open>
  C2. The userless filter is to remove an item whose login has no \<open>username\<close> key
  without raising. On the document whose one item has such a login the filter raises
  KeyError: \<open>item["login"]["username"]\<close> is read before the test for the key. On the
  document of two neighbouring items with the username \<open>None\<close> the filter removes the
  first and never visits the second, which stays.
\<close>

theorem userless_raises_without_username_key:
  "remove_userless_item doc_no_username_key = Inl KeyError \<and>
   remove_userless_item doc_two_userless =
     Inr (doc_two_userless
       \<lparr>items := [login_item ''2'' ''b'' Null (Val ''q'') (Val [entry ''https://y.com'' 0])],
        out := [Removing_no_username ''a'']\<rparr>)"
  by (simp add: remove_userless_item_def doc_no_username_key_def doc_two_userless_def
      example_defs userless_cond_cases list_remove_def emit_def)

text \<open>
  C5. The output of the three filters is to be a fixed point of the three filters. On the
  document of two neighbouring items with the username \<open>None\<close> the first run leaves
  the second item, and a second run on that output removes it.
\<close>

theorem filter_stage_not_idempotent:
  "filter_stage doc_two_userless =
     Inr (doc_two_userless
       \<lparr>items := [login_item ''2'' ''b'' Null (Val ''q'') (Val [entry ''https://y.com'' 0])],
        out := [Removing_no_username ''a'']\<rparr>) \<and>
   bind_err (filter_stage doc_two_userless) filter_stage =
     Inr (doc_two_userless
       \<lparr>items := [], out := [Removing_no_username ''a'', Removing_no_username ''b'']\<rparr>)"
  by (simp add: filter_stage_def remove_userless_item_def remove_passwordless_item_def
      remove_uriless_item_def doc_two_userless_def example_defs userless_cond_cases
      passwordless_cond_cases uriless_cond_cases valid_uris_def set_uris_def truthy_def
      uri_get_def list_remove_def emit_def)

section \<open>The duplicate finder\<close>

lemma comparable_reads:
  assumes "comparable it"
  shows "\<exists>u n p. first_uri it = Inr u \<and> item_username it = Inr n \<and> item_password it = Inr p"
  using assms
  by (auto simp: comparable_def first_uri_def item_username_def item_password_def
      item_login_def getitem_def contains_def split: field.splits list.splits)

lemma dup_cond_comparable:
  assumes "comparable x" "comparable y"
  shows "dup_cond x y =
     Inr (x \<noteq> y \<and> first_uri x = first_uri y \<and> item_username x = item_username y \<and>
          item_password x = item_password y)"
proof -
  from comparable_reads [OF assms(1)] obtain u n p where
    x: "first_uri x = Inr u" "item_username x = Inr n" "item_password x = Inr p" by blast
  from comparable_reads [OF assms(2)] obtain u' n' p' where
    y: "first_uri y = Inr u'" "item_username y = Inr n'" "item_password y = Inr p'" by blast
  show ?thesis
    by (simp add: dup_cond_def py_and_def py_eq_def x y)
qed

lemma filter_err_filter:
  "\<forall>x\<in>set xs. p x = Inr (q x) \<Longrightarrow> filter_err p xs = Inr (filter q xs)"
  by (induction xs) simp_all

lemma find_items_with_duplicates_comparable:
  assumes "\<forall>it\<in>set (items s). comparable it"
  shows "find_items_with_duplicates s =
     Inr (filter (reported (items s))
            (List.product [0..<length (items s)] [0..<length (items s)]), s)"
proof -
  have "\<forall>x\<in>set (List.product [0..<length (items s)] [0..<length (items s)]).
          (\<lambda>(i, j). dup_cond (items s ! i) (items s ! j)) x = Inr (reported (items s) x)"
    using assms by (auto simp: reported_def dup_cond_comparable)
  from filter_err_filter [OF this] show ?thesis
    by (simp add: find_items_with_duplicates_def)
qed

lemmas finder_defs =
  find_items_with_duplicates_def dup_cond_def py_and_def py_eq_def first_uri_def
  item_username_def item_password_def item_login_def getitem_def

text \<open>
  C4, as the claim states it, fails: \<open>item != other_item\<close> compares the two dictionaries
  by value. In the document below the positions 0 and 1 hold two objects with the same
  first URI, username and password, and the finder reports no pair.
\<close>

theorem equal_valued_objects_not_reported:
  "length (items doc_twins) = 2 \<and>
   list_all comparable (items doc_twins) \<and>
   first_uri (items doc_twins ! 0) = first_uri (items doc_twins ! 1) \<and>
   item_username (items doc_twins ! 0) = item_username (items doc_twins ! 1) \<and>
   item_password (items doc_twins ! 0) = item_password (items doc_twins ! 1) \<and>
   find_items_with_duplicates doc_twins = Inr ([], doc_twins)"
  by (simp add: doc_twins_def twin_def example_defs comparable_def contains_def finder_defs)

text \<open>
  C4, amended. In a document whose items all have a login with the keys \<open>username\<close> and
  \<open>password\<close> and a URI list whose first entry has the key \<open>uri\<close>, for every two items
  that are unequal by value and have equal first URI, username and password, the finder
  returns, reports both ordered pairs and leaves the state as it is; every pair it reports
  is a pair of items that are unequal by value, so a pair of equal-valued items (an item
  with itself among them) is excluded.
\<close>

theorem duplicates_reported_in_both_orders:
  assumes "\<forall>it\<in>set (items s). comparable it"
    and "i < length (items s)" and "j < length (items s)"
    and "items s ! i \<noteq> items s ! j"
    and "first_uri (items s ! i) = first_uri (items s ! j)"
    and "item_username (items s ! i) = item_username (items s ! j)"
    and "item_password (items s ! i) = item_password (items s ! j)"
  shows "\<exists>ps. find_items_with_duplicates s = Inr (ps, s) \<and>
           (i, j) \<in> set ps \<and> (j, i) \<in> set ps \<and>
           (\<forall>(a, b)\<in>set ps. items s ! a \<noteq> items s ! b)"
  using assms(2-)
  by (auto simp: find_items_with_duplicates_comparable [OF assms(1)] reported_def)

theorem duplicates_reported_in_both_orders_witness:
  "list_all comparable (items doc_dups_yes) \<and>
   (0::nat) < length (items doc_dups_yes) \<and> (1::nat) < length (items doc_dups_yes) \<and>
   items doc_dups_yes ! 0 \<noteq> items doc_dups_yes ! 1 \<and>
   first_uri (items doc_dups_yes ! 0) = first_uri (items doc_dups_yes ! 1) \<and>
   item_username (items doc_dups_yes ! 0) = item_username (items doc_dups_yes ! 1) \<and>
   item_password (items doc_dups_yes ! 0) = item_password (items doc_dups_yes ! 1) \<and>
   (\<exists>ps. find_items_with_duplicates doc_dups_yes = Inr (ps, doc_dups_yes) \<and>
      (0, 1) \<in> set ps \<and> (1, 0) \<in> set ps \<and>
      (\<forall>(a, b)\<in>set ps. items doc_dups_yes ! a \<noteq> items doc_dups_yes ! b))"
proof -
  have h: "list_all comparable (items doc_dups_yes)"
    "(0::nat) < length (items doc_dups_yes)" "(1::nat) < length (items doc_dups_yes)"
    "items doc_dups_yes ! 0 \<noteq> items doc_dups_yes ! 1"
    "first_uri (items doc_dups_yes ! 0) = first_uri (items doc_dups_yes ! 1)"
    "item_username (items doc_dups_yes ! 0) = item_username (items doc_dups_yes ! 1)"
    "item_password (items doc_dups_yes ! 0) = item_password (items doc_dups_yes ! 1)"
    by (simp_all add: doc_dups_yes_def dup_items_def example_defs comparable_def contains_def
        finder_defs)
  from h(1) have c: "\<forall>it\<in>set (items doc_dups_yes). comparable it"
    by (simp add: list_all_iff)
  from duplicates_reported_in_both_orders [OF c h(2-)] h show ?thesis
    by blast
qed

text \<open>
  C10. The finder leaves the state of the run as it finds it: the item list, every item
  in it, the merge registry and the output after the call are those before it.
\<close>

theorem finder_leaves_state:
  "find_items_with_duplicates s = Inr (ps, s') \<Longrightarrow> s' = s"
  by (auto simp: find_items_with_duplicates_def bind_err_Inr_iff)

theorem finder_leaves_state_witness:
  "find_items_with_duplicates doc_dups_yes = Inr ([(0, 1), (1, 0)], doc_dups_yes)"
proof -
  have "\<exists>s'. find_items_with_duplicates doc_dups_yes = Inr ([(0, 1), (1, 0)], s')"
    by (simp add: doc_dups_yes_def dup_items_def example_defs finder_defs)
  then obtain s' where r: "find_items_with_duplicates doc_dups_yes = Inr ([(0, 1), (1, 0)], s')"
    by blast
  from finder_leaves_state [OF r] r show ?thesis by simp
qed

section \<open>The merge resolver\<close>

lemma getitem_uri: "contains (uri u) \<Longrightarrow> getitem (uri u) = Inr (uri_get u)"
  by (cases "uri u") (simp_all add: contains_def getitem_def uri_get_def)

lemma uri_get_eq_iff:
  "contains (uri u) \<Longrightarrow> contains (uri v) \<Longrightarrow> uri_get u = uri_get v \<longleftrightarrow> uri u = uri v"
  by (cases "uri u"; cases "uri v") (simp_all add: contains_def uri_get_def)

lemma map_err_map: "\<forall>x\<in>set xs. f x = Inr (g x) \<Longrightarrow> map_err f xs = Inr (map g xs)"
  by (induction xs) simp_all

lemma dict_by_uri_build:
  "\<forall>u\<in>set us. contains (uri u) \<Longrightarrow> dict_by_uri us d = Inr (build us d)"
  by (induction us arbitrary: d) (simp_all add: build_def getitem_uri)

lemma uri_strings_map:
  assumes "item_uris it = Inr us" and "\<forall>u\<in>set us. contains (uri u)"
  shows "uri_strings it = Inr (map uri_get us)"
proof -
  have "map_err (\<lambda>u. getitem (uri u)) us = Inr (map uri_get us)"
    by (rule map_err_map) (simp add: assms(2) getitem_uri)
  with assms(1) show ?thesis by (simp add: uri_strings_def)
qed

lemma dedup_uris_build:
  "\<forall>u\<in>set us. contains (uri u) \<Longrightarrow> dedup_uris us = Inr (map snd (build us []))"
  by (simp add: dedup_uris_def dict_by_uri_build)

text \<open>What a call of the resolver returns when it asks, for either answer.\<close>

lemma merge_run:
  assumes "a < length (items s)" and "b < length (items s)"
    and "item_id (items s ! a) \<notin> merged_items s" and "item_id (items s ! b) \<notin> merged_items s"
    and "answers s = ans # rest"
    and "item_uris (items s ! a) = Inr ua" and "item_uris (items s ! b) = Inr ub"
    and "\<forall>u\<in>set (ua @ ub). contains (uri u)"
  shows "merge_uris_of_items a b s =
     Inr (if ans then
            s\<lparr>items := (items s)[a := set_uris (map snd (build (ua @ ub) [])) (items s ! a)],
              merged_items := insert (item_id (items s ! b)) (merged_items s),
              answers := rest,
              out := out s @
                [Found_duplicates (name (items s ! a)) (name (items s ! b)),
                 Has_uris (name (items s ! a)) (map uri_get ua),
                 Has_uris (name (items s ! b)) (map uri_get ub),
                 Ask_merge,
                 Merged_into (name (items s ! b)) (name (items s ! a))]\<rparr>
          else
            s\<lparr>answers := rest,
              out := out s @
                [Found_duplicates (name (items s ! a)) (name (items s ! b)),
                 Has_uris (name (items s ! a)) (map uri_get ua),
                 Has_uris (name (items s ! b)) (map uri_get ub),
                 Ask_merge]\<rparr>)"
proof -
  from assms(8) have ca: "\<forall>u\<in>set ua. contains (uri u)" and cb: "\<forall>u\<in>set ub. contains (uri u)"
    by auto
  have sa: "uri_strings (items s ! a) = Inr (map uri_get ua)"
    by (rule uri_strings_map [OF assms(6) ca])
  have sb: "uri_strings (items s ! b) = Inr (map uri_get ub)"
    by (rule uri_strings_map [OF assms(7) cb])
  have dd: "dedup_uris (ua @ ub) = Inr (map snd (build (ua @ ub) []))"
    by (rule dedup_uris_build [OF assms(8)])
  show ?thesis
    using assms(1-5)
    by (simp add: merge_uris_of_items_def Let_def sa sb dd assms(6,7) confirm_ask_def emit_def)
qed

lemma merge_skip:
  assumes "a < length (items s)" and "b < length (items s)"
    and "item_id (items s ! a) \<in> merged_items s \<or> item_id (items s ! b) \<in> merged_items s"
  shows "merge_uris_of_items a b s = Inr s"
  using assms by (auto simp: merge_uris_of_items_def Let_def)

lemma set_update_subset: "set (AList.update k v al) \<subseteq> insert (k, v) (set al)"
  by (induction al) auto

lemma build_Cons: "build (u # us) d = build us (AList.update (uri_get u) u d)"
  by (simp add: build_def)

lemma build_keys: "fst ` set (build us d) = fst ` set d \<union> uri_get ` set us"
  by (induction us arbitrary: d) (auto simp: build_def dom_update)

lemma build_distinct: "distinct (map fst d) \<Longrightarrow> distinct (map fst (build us d))"
  by (induction us arbitrary: d) (simp_all add: build_def distinct_update)

lemma build_entries: "set (build us d) \<subseteq> set d \<union> (\<lambda>u. (uri_get u, u)) ` set us"
proof (induction us arbitrary: d)
  case Nil
  then show ?case by (simp add: build_def)
next
  case (Cons u us)
  from Cons [of "AList.update (uri_get u) u d"] set_update_subset [of "uri_get u" u d]
  show ?case by (auto simp: build_Cons)
qed

lemma build_map_of:
  "map_of (build us d) = map_of d ++ map_of (rev (map (\<lambda>u. (uri_get u, u)) us))"
proof (induction us arbitrary: d)
  case Nil
  then show ?case by (simp add: build_def)
next
  case (Cons u us)
  then show ?case
    by (auto simp: build_Cons update_conv' fun_eq_iff map_add_def split: option.splits)
qed

lemma map_of_find: "map_of (map (\<lambda>u. (f u, u)) xs) k = List.find (\<lambda>u. f u = k) xs"
  by (induction xs) auto

lemma find_in_first: "\<exists>u\<in>set xs. P u \<Longrightarrow> List.find P (xs @ ys) = List.find P xs"
  by (induction xs) auto

lemma find_SomeD: "List.find P xs = Some v \<Longrightarrow> v \<in> set xs \<and> P v"
  by (induction xs) (auto split: if_splits)

lemma dedup_subset: "set (map snd (build us [])) \<subseteq> set us"
  using build_entries [of us "[]"] by auto

lemma build_entry_key: "(k, v) \<in> set (build us []) \<Longrightarrow> k = uri_get v \<and> v \<in> set us"
  using build_entries [of us "[]"] by auto

lemma dedup_keys: "map uri_get (map snd (build us [])) = map fst (build us [])"
  by (auto dest: build_entry_key)

lemma dedup_distinct: "distinct (map uri (map snd (build us [])))"
proof -
  have "distinct (map fst (build us []))"
    by (rule build_distinct) simp
  then have "distinct (map uri_get (map snd (build us [])))"
    by (simp only: dedup_keys)
  then have "distinct (map ((\<lambda>f. case f of Val v \<Rightarrow> Some v | _ \<Rightarrow> None) \<circ> uri) (map snd (build us [])))"
    by (simp add: uri_get_def comp_def cong: field.case_cong)
  then show ?thesis
    unfolding distinct_map by (auto dest: inj_on_imageI2)
qed

lemma dedup_last:
  assumes "\<forall>u\<in>set us. contains (uri u)" and "v \<in> set (map snd (build us []))"
  shows "last_with_uri (uri v) us = Some v"
proof -
  from assms(2) obtain k where kv: "(k, v) \<in> set (build us [])" by auto
  with build_entries [of us "[]"] have k: "k = uri_get v" and v: "v \<in> set us" by auto
  have "distinct (map fst (build us []))"
    by (rule build_distinct) simp
  with kv k have "map_of (build us []) (uri_get v) = Some v" by simp
  then have "map_of (map (\<lambda>u. (uri_get u, u)) (rev us)) (uri_get v) = Some v"
    by (simp add: build_map_of rev_map)
  then have "List.find (\<lambda>u. uri_get u = uri_get v) (rev us) = Some v"
    by (simp only: map_of_find)
  moreover have "List.find (\<lambda>u. uri_get u = uri_get v) (rev us) = List.find (\<lambda>u. uri u = uri v) (rev us)"
    by (rule find_cong) (use assms(1) v in \<open>auto simp: uri_get_eq_iff\<close>)
  ultimately show ?thesis by (simp add: last_with_uri_def)
qed

lemma dedup_uri_set:
  assumes "\<forall>u\<in>set us. contains (uri u)"
  shows "uri ` set (map snd (build us [])) = uri ` set us"
proof
  show "uri ` set (map snd (build us [])) \<subseteq> uri ` set us"
    using dedup_subset [of us] by auto
next
  show "uri ` set us \<subseteq> uri ` set (map snd (build us []))"
  proof
    fix k assume "k \<in> uri ` set us"
    then obtain u where u: "u \<in> set us" "k = uri u" by auto
    then have "uri_get u \<in> fst ` set (build us [])"
      by (simp add: build_keys)
    then obtain v where kv: "(uri_get u, v) \<in> set (build us [])" by force
    with build_entries [of us "[]"] have "uri_get v = uri_get u" "v \<in> set us" by auto
    with u assms have "uri v = uri u" by (simp add: uri_get_eq_iff)
    moreover from kv have "v \<in> set (map snd (build us []))" by force
    ultimately show "k \<in> uri ` set (map snd (build us []))"
      using u(2) by (metis image_eqI)
  qed
qed

lemma dedup_prefers_second:
  assumes "\<forall>u\<in>set (ua @ ub). contains (uri u)"
    and "v \<in> set (map snd (build (ua @ ub) []))" and "uri v \<in> uri ` set ub"
  shows "v \<in> set ub"
proof -
  from dedup_last [OF assms(1,2)]
  have "List.find (\<lambda>u. uri u = uri v) (rev ub @ rev ua) = Some v"
    by (simp add: last_with_uri_def)
  moreover from assms(3) have "\<exists>u\<in>set (rev ub). uri u = uri v" by auto
  ultimately have "List.find (\<lambda>u. uri u = uri v) (rev ub) = Some v"
    by (simp add: find_in_first)
  then show ?thesis by (auto dest: find_SomeD)
qed

lemma item_uris_set_uris:
  "item_uris it = Inr us \<Longrightarrow> item_uris (set_uris us' it) = Inr us'"
  by (auto simp: item_uris_def set_uris_def item_login_def getitem_def bind_err_Inr_iff
      split: field.splits option.splits)

lemma mergeable_item_uris:
  "mergeable it \<Longrightarrow> \<exists>us. item_uris it = Inr us \<and> (\<forall>u\<in>set us. contains (uri u))"
  by (auto simp: mergeable_def item_uris_def item_login_def getitem_def list_all_iff
      split: field.splits)

lemma merge_registry_grows:
  "merge_uris_of_items a b s = Inr s' \<Longrightarrow> merged_items s \<subseteq> merged_items s'"
  by (auto simp: merge_uris_of_items_def Let_def bind_err_Inr_iff confirm_ask_def emit_def
      split: if_splits list.splits)

lemma merge_all_registry_grows:
  "merge_all ps s = Inr s' \<Longrightarrow> merged_items s \<subseteq> merged_items s'"
proof (induction ps arbitrary: s)
  case Nil
  then show ?case by simp
next
  case (Cons p ps)
  obtain a b where p: "p = (a, b)" by (cases p)
  with Cons.prems obtain s1 where
    "merge_uris_of_items a b s = Inr s1" "merge_all ps s1 = Inr s'"
    by (auto simp: bind_err_Inr_iff)
  with Cons.IH [of s1] merge_registry_grows [of a b s s1] show ?case by blast
qed

lemmas merge_defs =
  merge_uris_of_items_def uri_strings_def item_uris_def item_login_def getitem_def
  dedup_uris_def confirm_ask_def emit_def set_uris_def

text \<open>
  C3. When the resolver asks about the pair of objects at \<open>a\<close> and \<open>b\<close> and the answer
  is yes, it returns; the URI list of the object at \<open>a\<close> becomes the entries of
  \<open>a\<close> followed by those of \<open>b\<close>, one entry kept for every \<open>uri\<close> string, and the
  entry kept is the last one with that string (so an entry of \<open>b\<close> when \<open>b\<close> has the
  string); the id of \<open>b\<close> is added to the registry; no other position of the item list
  changes and the list keeps its length, so \<open>b\<close> stays in the document.
\<close>

theorem confirmed_merge:
  assumes "a < length (items s)" and "b < length (items s)"
    and "item_id (items s ! a) \<notin> merged_items s" and "item_id (items s ! b) \<notin> merged_items s"
    and "answers s = True # rest"
    and "item_uris (items s ! a) = Inr ua" and "item_uris (items s ! b) = Inr ub"
    and "\<forall>u\<in>set (ua @ ub). contains (uri u)"
  shows "\<exists>s' us. merge_uris_of_items a b s = Inr s' \<and>
           dedup_uris (ua @ ub) = Inr us \<and>
           items s' = (items s)[a := set_uris us (items s ! a)] \<and>
           item_uris (items s' ! a) = Inr us \<and>
           uri ` set us = uri ` set (ua @ ub) \<and>
           (\<forall>u\<in>set us. last_with_uri (uri u) (ua @ ub) = Some u) \<and>
           (\<forall>u\<in>set us. uri u \<in> uri ` set ub \<longrightarrow> u \<in> set ub) \<and>
           merged_items s' = insert (item_id (items s ! b)) (merged_items s) \<and>
           length (items s') = length (items s) \<and>
           (\<forall>k<length (items s). k \<noteq> a \<longrightarrow> items s' ! k = items s ! k)"
proof -
  let ?us = "map snd (build (ua @ ub) [])"
  have run: "merge_uris_of_items a b s =
      Inr (s\<lparr>items := (items s)[a := set_uris ?us (items s ! a)],
             merged_items := insert (item_id (items s ! b)) (merged_items s),
             answers := rest,
             out := out s @
               [Found_duplicates (name (items s ! a)) (name (items s ! b)),
                Has_uris (name (items s ! a)) (map uri_get ua),
                Has_uris (name (items s ! b)) (map uri_get ub),
                Ask_merge,
                Merged_into (name (items s ! b)) (name (items s ! a))]\<rparr>)"
    using merge_run [OF assms(1-4) assms(5) assms(6-8)] by simp
  have dd: "dedup_uris (ua @ ub) = Inr ?us"
    by (rule dedup_uris_build [OF assms(8)])
  have new: "item_uris (set_uris ?us (items s ! a)) = Inr ?us"
    by (rule item_uris_set_uris [OF assms(6)])
  have keys: "uri ` set ?us = uri ` set (ua @ ub)"
    by (rule dedup_uri_set [OF assms(8)])
  have last: "\<forall>u\<in>set ?us. last_with_uri (uri u) (ua @ ub) = Some u"
    using dedup_last [OF assms(8)] by blast
  have second: "\<forall>u\<in>set ?us. uri u \<in> uri ` set ub \<longrightarrow> u \<in> set ub"
    using dedup_prefers_second [OF assms(8)] by blast
  from run dd new keys last second assms(1) show ?thesis
    by (intro exI [of _ "s\<lparr>items := (items s)[a := set_uris ?us (items s ! a)],
             merged_items := insert (item_id (items s ! b)) (merged_items s),
             answers := rest,
             out := out s @
               [Found_duplicates (name (items s ! a)) (name (items s ! b)),
                Has_uris (name (items s ! a)) (map uri_get ua),
                Has_uris (name (items s ! b)) (map uri_get ub),
                Ask_merge,
                Merged_into (name (items s ! b)) (name (items s ! a))]\<rparr>"] exI [of _ ?us])
       simp
qed

theorem confirmed_merge_witness:
  "(0::nat) < length (items doc_dups_yes) \<and> (1::nat) < length (items doc_dups_yes) \<and>
   item_id (items doc_dups_yes ! 0) \<notin> merged_items doc_dups_yes \<and>
   item_id (items doc_dups_yes ! 1) \<notin> merged_items doc_dups_yes \<and>
   answers doc_dups_yes = [True] \<and>
   item_uris (items doc_dups_yes ! 0) = Inr [entry ''https://x.com'' 0] \<and>
   item_uris (items doc_dups_yes ! 1) = Inr [entry ''https://x.com'' 1, entry ''https://y.com'' 0] \<and>
   (\<exists>s'. merge_uris_of_items 0 1 doc_dups_yes = Inr s' \<and>
      item_uris (items s' ! 0) = Inr [entry ''https://x.com'' 1, entry ''https://y.com'' 0] \<and>
      merged_items s' = {''2''} \<and>
      length (items s') = 2 \<and>
      items s' ! 1 = items doc_dups_yes ! 1)"
proof -
  have h: "(0::nat) < length (items doc_dups_yes)" "(1::nat) < length (items doc_dups_yes)"
    "item_id (items doc_dups_yes ! 0) \<notin> merged_items doc_dups_yes"
    "item_id (items doc_dups_yes ! 1) \<notin> merged_items doc_dups_yes"
    "answers doc_dups_yes = [True]"
    "item_uris (items doc_dups_yes ! 0) = Inr [entry ''https://x.com'' 0]"
    "item_uris (items doc_dups_yes ! 1) = Inr [entry ''https://x.com'' 1, entry ''https://y.com'' 0]"
    by (simp_all add: doc_dups_yes_def dup_items_def example_defs item_uris_def item_login_def
        getitem_def)
  have c: "\<forall>u\<in>set ([entry ''https://x.com'' 0] @ [entry ''https://x.com'' 1, entry ''https://y.com'' 0]).
             contains (uri u)"
    by (simp add: entry_def contains_def)
  have d: "dedup_uris ([entry ''https://x.com'' 0] @ [entry ''https://x.com'' 1, entry ''https://y.com'' 0]) =
      Inr [entry ''https://x.com'' 1, entry ''https://y.com'' 0]"
    by (simp add: dedup_uris_def entry_def getitem_def)
  have i: "item_id (items doc_dups_yes ! 1) = ''2''" "merged_items doc_dups_yes = {}"
    "length (items doc_dups_yes) = 2"
    by (simp_all add: doc_dups_yes_def dup_items_def example_defs)
  from confirmed_merge [OF h c] obtain s' us where
    r: "merge_uris_of_items 0 1 doc_dups_yes = Inr s'"
      "dedup_uris ([entry ''https://x.com'' 0] @ [entry ''https://x.com'' 1, entry ''https://y.com'' 0]) = Inr us"
      "item_uris (items s' ! 0) = Inr us"
      "merged_items s' = insert (item_id (items doc_dups_yes ! 1)) (merged_items doc_dups_yes)"
      "length (items s') = length (items doc_dups_yes)"
      "\<forall>k<length (items doc_dups_yes). k \<noteq> 0 \<longrightarrow> items s' ! k = items doc_dups_yes ! k"
    by blast
  from r(2) d have us: "us = [entry ''https://x.com'' 1, entry ''https://y.com'' 0]" by simp
  from r(6) i(3) have "items s' ! 1 = items doc_dups_yes ! 1" by simp
  with h r(1,3,4,5) us i show ?thesis by simp
qed

text \<open>
  C6, as the claim states it, fails where it says that the first occurrence is retained.
  In the document below the two items have an entry with the same \<open>uri\<close> string and
  different attributes (0 in the first item, 1 in the second); after the confirmed merge
  the first item holds the entry of the second item.
\<close>

theorem merge_keeps_second_copy:
  "item_uris (items doc_dups_yes ! 0) = Inr [entry ''https://x.com'' 0] \<and>
   item_uris (items doc_dups_yes ! 1) = Inr [entry ''https://x.com'' 1, entry ''https://y.com'' 0] \<and>
   answers doc_dups_yes = [True] \<and>
   bind_err (merge_uris_of_items 0 1 doc_dups_yes) (\<lambda>s'. item_uris (items s' ! 0)) =
     Inr [entry ''https://x.com'' 1, entry ''https://y.com'' 0] \<and>
   entry ''https://x.com'' 0 \<noteq> entry ''https://x.com'' 1"
  by (simp add: doc_dups_yes_def dup_items_def example_defs merge_defs Let_def)

text \<open>
  C6, amended. After a confirmed merge of the pair of objects at \<open>a\<close> and \<open>b\<close>, the URI
  list of the object at \<open>a\<close> has no two entries with the same \<open>uri\<close> string, its
  \<open>uri\<close> strings are those of the two prior lists, its entries are entries of the two
  prior lists, and for a \<open>uri\<close> string that the list of \<open>b\<close> has, the entry kept is
  an entry of \<open>b\<close>: the last occurrence is retained, not the first.
\<close>

theorem merged_uris_union_last_wins:
  assumes "a < length (items s)" and "b < length (items s)"
    and "item_id (items s ! a) \<notin> merged_items s" and "item_id (items s ! b) \<notin> merged_items s"
    and "answers s = True # rest"
    and "item_uris (items s ! a) = Inr ua" and "item_uris (items s ! b) = Inr ub"
    and "\<forall>u\<in>set (ua @ ub). contains (uri u)"
  shows "\<exists>s' us. merge_uris_of_items a b s = Inr s' \<and>
           item_uris (items s' ! a) = Inr us \<and>
           distinct (map uri us) \<and>
           uri ` set us = uri ` set ua \<union> uri ` set ub \<and>
           set us \<subseteq> set ua \<union> set ub \<and>
           (\<forall>u\<in>set us. uri u \<in> uri ` set ub \<longrightarrow> u \<in> set ub)"
proof -
  let ?us = "map snd (build (ua @ ub) [])"
  let ?s' = "s\<lparr>items := (items s)[a := set_uris ?us (items s ! a)],
             merged_items := insert (item_id (items s ! b)) (merged_items s),
             answers := rest,
             out := out s @
               [Found_duplicates (name (items s ! a)) (name (items s ! b)),
                Has_uris (name (items s ! a)) (map uri_get ua),
                Has_uris (name (items s ! b)) (map uri_get ub),
                Ask_merge,
                Merged_into (name (items s ! b)) (name (items s ! a))]\<rparr>"
  have run: "merge_uris_of_items a b s = Inr ?s'"
    using merge_run [OF assms(1-4) assms(5) assms(6-8)] by simp
  have new: "item_uris (items ?s' ! a) = Inr ?us"
    using item_uris_set_uris [OF assms(6)] assms(1) by simp
  have d: "distinct (map uri ?us)"
    by (rule dedup_distinct)
  have keys: "uri ` set ?us = uri ` set ua \<union> uri ` set ub"
    using dedup_uri_set [OF assms(8)] by (simp add: image_Un)
  have sub: "set ?us \<subseteq> set ua \<union> set ub"
    using dedup_subset [of "ua @ ub"] by simp
  have second: "\<forall>u\<in>set ?us. uri u \<in> uri ` set ub \<longrightarrow> u \<in> set ub"
    using dedup_prefers_second [OF assms(8)] by blast
  from run new d keys sub second show ?thesis by blast
qed

theorem merged_uris_union_last_wins_witness:
  "(\<exists>s' us. merge_uris_of_items 0 1 doc_dups_yes = Inr s' \<and>
      item_uris (items s' ! 0) = Inr us \<and>
      distinct (map uri us) \<and>
      uri ` set us = {Val ''https://x.com'', Val ''https://y.com''} \<and>
      entry ''https://x.com'' 1 \<in> set us)"
proof -
  have h: "(0::nat) < length (items doc_dups_yes)" "(1::nat) < length (items doc_dups_yes)"
    "item_id (items doc_dups_yes ! 0) \<notin> merged_items doc_dups_yes"
    "item_id (items doc_dups_yes ! 1) \<notin> merged_items doc_dups_yes"
    "answers doc_dups_yes = [True]"
    "item_uris (items doc_dups_yes ! 0) = Inr [entry ''https://x.com'' 0]"
    "item_uris (items doc_dups_yes ! 1) = Inr [entry ''https://x.com'' 1, entry ''https://y.com'' 0]"
    by (simp_all add: doc_dups_yes_def dup_items_def example_defs item_uris_def item_login_def
        getitem_def)
  have c: "\<forall>u\<in>set ([entry ''https://x.com'' 0] @ [entry ''https://x.com'' 1, entry ''https://y.com'' 0]).
             contains (uri u)"
    by (simp add: entry_def contains_def)
  from merged_uris_union_last_wins [OF h c] obtain s' us where
    r: "merge_uris_of_items 0 1 doc_dups_yes = Inr s'"
      "item_uris (items s' ! 0) = Inr us"
      "distinct (map uri us)"
      "uri ` set us = uri ` set [entry ''https://x.com'' 0] \<union>
         uri ` set [entry ''https://x.com'' 1, entry ''https://y.com'' 0]"
      "set us \<subseteq> set [entry ''https://x.com'' 0] \<union>
         set [entry ''https://x.com'' 1, entry ''https://y.com'' 0]"
      "\<forall>u\<in>set us. uri u \<in> uri ` set [entry ''https://x.com'' 1, entry ''https://y.com'' 0]
         \<longrightarrow> u \<in> set [entry ''https://x.com'' 1, entry ''https://y.com'' 0]"
    by blast
  from r(4) have k: "uri ` set us = {Val ''https://x.com'', Val ''https://y.com''}"
    by (auto simp: entry_def)
  then have "Val ''https://x.com'' \<in> uri ` set us" by simp
  then obtain u where u: "u \<in> set us" "uri u = Val ''https://x.com''" by auto
  with r(6) have "u \<in> set [entry ''https://x.com'' 1, entry ''https://y.com'' 0]"
    by (simp add: entry_def)
  with u(2) have "u = entry ''https://x.com'' 1" by (auto simp: entry_def)
  with u(1) r(1,2,3) k show ?thesis by blast
qed

text \<open>
  C7. When the resolver is called on two objects of the document whose URI lists it can
  read and the answer to come is no, it returns, and the item list (so the objects at
  \<open>a\<close> and \<open>b\<close>, and every other item) and the registry are as before the call.
\<close>

theorem declined_merge_changes_nothing:
  assumes "a < length (items s)" and "b < length (items s)"
    and "mergeable (items s ! a)" and "mergeable (items s ! b)"
    and "answers s = False # rest"
  shows "\<exists>s'. merge_uris_of_items a b s = Inr s' \<and>
           items s' = items s \<and> merged_items s' = merged_items s"
proof (cases "item_id (items s ! a) \<notin> merged_items s \<and> item_id (items s ! b) \<notin> merged_items s")
  case True
  from mergeable_item_uris [OF assms(3)] obtain ua where
    ua: "item_uris (items s ! a) = Inr ua" "\<forall>u\<in>set ua. contains (uri u)" by blast
  from mergeable_item_uris [OF assms(4)] obtain ub where
    ub: "item_uris (items s ! b) = Inr ub" "\<forall>u\<in>set ub. contains (uri u)" by blast
  from ua(2) ub(2) have c: "\<forall>u\<in>set (ua @ ub). contains (uri u)" by auto
  from True have n: "item_id (items s ! a) \<notin> merged_items s"
    "item_id (items s ! b) \<notin> merged_items s" by simp_all
  from merge_run [OF assms(1,2) n assms(5) ua(1) ub(1) c] show ?thesis by simp
next
  case False
  with merge_skip [OF assms(1,2)] show ?thesis by simp
qed

theorem declined_merge_changes_nothing_witness:
  "(0::nat) < length (items doc_dups_no) \<and> (1::nat) < length (items doc_dups_no) \<and>
   mergeable (items doc_dups_no ! 0) \<and> mergeable (items doc_dups_no ! 1) \<and>
   answers doc_dups_no = [False] \<and>
   (\<exists>s'. merge_uris_of_items 0 1 doc_dups_no = Inr s' \<and>
      items s' = items doc_dups_no \<and> merged_items s' = merged_items doc_dups_no)"
proof -
  have h: "(0::nat) < length (items doc_dups_no)" "(1::nat) < length (items doc_dups_no)"
    "mergeable (items doc_dups_no ! 0)" "mergeable (items doc_dups_no ! 1)"
    "answers doc_dups_no = [False]"
    by (simp_all add: doc_dups_no_def dup_items_def example_defs mergeable_def contains_def)
  from declined_merge_changes_nothing [OF h] h show ?thesis by simp
qed

text \<open>
  C8. Once an id \<open>x\<close> is in the registry, after any further calls of the resolver in the
  run, a call on a pair of objects of which one has the id \<open>x\<close> returns the state it was
  given: no output, no question to the user (the answers to come are untouched), no
  change of an item or of the registry.
\<close>

theorem merged_id_is_skipped:
  assumes "x \<in> merged_items s" and "merge_all ps s = Inr s'"
    and "a < length (items s')" and "b < length (items s')"
    and "item_id (items s' ! a) = x \<or> item_id (items s' ! b) = x"
  shows "merge_uris_of_items a b s' = Inr s'"
proof -
  from merge_all_registry_grows [OF assms(2)] assms(1) have "x \<in> merged_items s'" by blast
  with assms(5) have
    "item_id (items s' ! a) \<in> merged_items s' \<or> item_id (items s' ! b) \<in> merged_items s'"
    by auto
  from merge_skip [OF assms(3,4) this] show ?thesis .
qed

theorem merged_id_is_skipped_witness:
  "''2'' \<in> merged_items doc_dups_merged \<and>
   merge_all [(1, 0)] doc_dups_merged = Inr doc_dups_merged \<and>
   (0::nat) < length (items doc_dups_merged) \<and> (1::nat) < length (items doc_dups_merged) \<and>
   item_id (items doc_dups_merged ! 1) = ''2'' \<and>
   answers doc_dups_merged = [True] \<and>
   merge_uris_of_items 0 1 doc_dups_merged = Inr doc_dups_merged"
proof -
  have h: "''2'' \<in> merged_items doc_dups_merged"
    "merge_all [(1, 0)] doc_dups_merged = Inr doc_dups_merged"
    "(0::nat) < length (items doc_dups_merged)" "(1::nat) < length (items doc_dups_merged)"
    by (simp_all add: doc_dups_merged_def dup_items_def example_defs merge_uris_of_items_def)
  have i: "item_id (items doc_dups_merged ! 1) = ''2''" "answers doc_dups_merged = [True]"
    by (simp_all add: doc_dups_merged_def dup_items_def example_defs)
  from i(1) have d: "item_id (items doc_dups_merged ! 0) = ''2'' \<or>
      item_id (items doc_dups_merged ! 1) = ''2''" by simp
  from merged_id_is_skipped [OF h d] h i show ?thesis by simp
qed

end
